theory Spec2Isabelle
  imports Main "HOL-Library.Multiset"
begin

section \<open>The agent endpoint (src/app/api/copilotkit/route.ts)\<close>

text \<open>
  \<^verbatim>\<open>process.env.NODE_ENV\<close> is a string or undefined: \<open>None\<close> is the unset variable.
  \<^verbatim>\<open>getAgentUrl\<close> compares it with \<^verbatim>\<open>===\<close>, which on strings is equality of the
  characters.
\<close>

definition getAgentUrl :: "string option \<Rightarrow> string" where
  "getAgentUrl NODE_ENV =
     (if NODE_ENV = Some ''production''
      then ''https://aiagentic.onrender.com/''
      else ''http://localhost:8000/'')"

section \<open>JSON values and the two built-ins the session routes call\<close>

text \<open>
  The session routes store whatever \<^verbatim>\<open>request.json()\<close> returned, so the data is a JSON
  value, not a typed record. The model keeps what the handlers can observe:
  \<^item> a number is an integer of magnitude at most \<^verbatim>\<open>Number.MAX_SAFE_INTEGER\<close>
    (\<^verbatim>\<open>Date.now()\<close> timestamps are); JavaScript prints these in plain decimal and reads
    them back exactly. Fractions, exponents and larger magnitudes are IEEE doubles and stay
    outside the model;
  \<^item> a string is a list of code units below 256;
  \<^item> an object is the list of its own properties in enumeration order.

  An operation that meets something outside the model answers \<open>Unmodelled\<close>. That is not
  an exception of the program: a handler's \<^verbatim>\<open>catch\<close> does not turn it into a response, and
  the handler's result is then \<open>None\<close>, about which nothing is claimed.
\<close>

datatype json = JNull | JBool bool | JNum int | JStr string
  | JArr "json list" | JObj "(string \<times> json) list"

datatype js_error = TypeError | SyntaxError | ENOENT | EACCES | Unmodelled

abbreviation DQUOTE :: char where "DQUOTE \<equiv> CHR 0x22"
abbreviation BACKSLASH :: char where "BACKSLASH \<equiv> CHR 0x5C"
abbreviation NEWLINE :: char where "NEWLINE \<equiv> CHR 0x0A"

subsection \<open>\<^verbatim>\<open>JSON.stringify(value, null, 2)\<close>\<close>

text \<open>
  QuoteJSONString of ECMAScript: the two-character escapes for backspace, tab, line feed,
  form feed, carriage return, the double quote and the backslash; \<^verbatim>\<open>\u00xx\<close> in lower-case
  hexadecimal for the other code units below 0x20; every other code unit as it is.
\<close>

definition hex_digit :: "nat \<Rightarrow> char" where
  "hex_digit n = ''0123456789abcdef'' ! n"

definition unicode_escape :: "char \<Rightarrow> string" where
  "unicode_escape c =
     [BACKSLASH, CHR ''u'', CHR ''0'', CHR ''0'',
      hex_digit (of_char c div 16), hex_digit (of_char c mod 16)]"

definition quote_char :: "char \<Rightarrow> string" where
  "quote_char c =
     (if c = CHR 0x08 then [BACKSLASH, CHR ''b'']
      else if c = CHR 0x09 then [BACKSLASH, CHR ''t'']
      else if c = CHR 0x0A then [BACKSLASH, CHR ''n'']
      else if c = CHR 0x0C then [BACKSLASH, CHR ''f'']
      else if c = CHR 0x0D then [BACKSLASH, CHR ''r'']
      else if c = DQUOTE then [BACKSLASH, DQUOTE]
      else if c = BACKSLASH then [BACKSLASH, BACKSLASH]
      else if (of_char c :: nat) < 0x20 then unicode_escape c
      else [c])"

definition QuoteJSONString :: "string \<Rightarrow> string" where
  "QuoteJSONString s = DQUOTE # concat (map quote_char s) @ [DQUOTE]"

text \<open>Number::toString on the integers of the model: decimal digits, a minus sign first.\<close>

definition digit_char :: "nat \<Rightarrow> char" where
  "digit_char d = ''0123456789'' ! d"

fun digits_of :: "nat \<Rightarrow> string" where
  "digits_of n =
     (if n < 10 then [digit_char n] else digits_of (n div 10) @ [digit_char (n mod 10)])"

declare digits_of.simps [simp del]

definition NumberToString :: "int \<Rightarrow> string" where
  "NumberToString n = (if n < 0 then CHR ''-'' # digits_of (nat (- n)) else digits_of (nat n))"

text \<open>
  SerializeJSONProperty with the gap of two spaces: \<open>indent d\<close> is the indentation at
  nesting depth \<open>d\<close>. An empty array or object is printed without a line break; otherwise
  each element starts a line of its own, elements are separated by a comma, and the closing
  bracket is on a line at the enclosing depth. A property is its quoted key, a colon, a
  space and its value.
\<close>

fun indent :: "nat \<Rightarrow> string" where
  "indent 0 = []"
| "indent (Suc d) = CHR '' '' # CHR '' '' # indent d"

fun serialize :: "nat \<Rightarrow> json \<Rightarrow> string"
and serialize_elems :: "nat \<Rightarrow> json list \<Rightarrow> string"
and serialize_members :: "nat \<Rightarrow> (string \<times> json) list \<Rightarrow> string"
where
  "serialize d JNull = ''null''"
| "serialize d (JBool b) = (if b then ''true'' else ''false'')"
| "serialize d (JNum n) = NumberToString n"
| "serialize d (JStr s) = QuoteJSONString s"
| "serialize d (JArr xs) =
     (if xs = [] then ''[]''
      else ''['' @ NEWLINE # indent (Suc d) @ serialize_elems (Suc d) xs
           @ NEWLINE # indent d @ '']'')"
| "serialize d (JObj ps) =
     (if ps = [] then ''{}''
      else ''{'' @ NEWLINE # indent (Suc d) @ serialize_members (Suc d) ps
           @ NEWLINE # indent d @ ''}'')"
| "serialize_elems d [] = []"
| "serialize_elems d [x] = serialize d x"
| "serialize_elems d (x # y # ys) =
     serialize d x @ '','' @ NEWLINE # indent d @ serialize_elems d (y # ys)"
| "serialize_members d [] = []"
| "serialize_members d [(k, v)] = QuoteJSONString k @ '': '' @ serialize d v"
| "serialize_members d ((k, v) # q # qs) =
     QuoteJSONString k @ '': '' @ serialize d v @ '','' @ NEWLINE # indent d
     @ serialize_members d (q # qs)"

definition JSON_stringify :: "json \<Rightarrow> string" where
  "JSON_stringify v = serialize 0 v"

subsection \<open>\<^verbatim>\<open>JSON.parse\<close>\<close>

text \<open>
  A recursive-descent reader of the JSON grammar. A syntax error is the exception
  \<open>SyntaxError\<close>. Three things are reported as \<open>Unmodelled\<close>: a number with a fraction or
  an exponent or beyond the safe integers, a \<^verbatim>\<open>\u\<close> escape of a code unit above 0xFF, and
  running out of fuel. A unit of fuel is spent on each value and on each element or member;
  \<open>JSON_parse\<close> starts with twice the length of the text and two more.
\<close>

definition is_ws :: "char \<Rightarrow> bool" where
  "is_ws c = (c = CHR '' '' \<or> c = CHR 0x09 \<or> c = CHR 0x0A \<or> c = CHR 0x0D)"

fun skip_ws :: "string \<Rightarrow> string" where
  "skip_ws [] = []"
| "skip_ws (c # cs) = (if is_ws c then skip_ws cs else c # cs)"

definition is_digit :: "char \<Rightarrow> bool" where
  "is_digit c = (48 \<le> (of_char c :: nat) \<and> (of_char c :: nat) \<le> 57)"

definition digit_val :: "char \<Rightarrow> nat" where
  "digit_val c = of_char c - 48"

fun parse_digits :: "nat \<Rightarrow> string \<Rightarrow> nat \<times> string" where
  "parse_digits acc [] = (acc, [])"
| "parse_digits acc (c # cs) =
     (if is_digit c then parse_digits (10 * acc + digit_val c) cs else (acc, c # cs))"

definition fraction_or_exponent :: "string \<Rightarrow> bool" where
  "fraction_or_exponent cs =
     (case cs of [] \<Rightarrow> False | c # _ \<Rightarrow> c = CHR ''.'' \<or> c = CHR ''e'' \<or> c = CHR ''E'')"

definition MAX_SAFE_INTEGER :: nat where
  "MAX_SAFE_INTEGER = 9007199254740991"

text \<open>
  The integer part of a JSON number is a single \<^verbatim>\<open>0\<close> or a digit from 1 to 9 followed by
  digits: after a leading \<^verbatim>\<open>0\<close> the number has ended. \<^verbatim>\<open>-0\<close> reads as \<open>0\<close>: the handlers
  print, compare and subtract negative zero as they do zero.
\<close>

definition parse_int :: "bool \<Rightarrow> string \<Rightarrow> js_error + (json \<times> string)" where
  "parse_int neg cs =
     (case cs of
        [] \<Rightarrow> Inl SyntaxError
      | c # r \<Rightarrow>
          if \<not> is_digit c then Inl SyntaxError
          else
            (case (if c = CHR ''0'' then (0, r) else parse_digits (digit_val c) r) of
               (n, r') \<Rightarrow>
                 if fraction_or_exponent r' \<or> MAX_SAFE_INTEGER < n then Inl Unmodelled
                 else Inr (JNum (if neg then - int n else int n), r')))"

definition parse_number :: "string \<Rightarrow> js_error + (json \<times> string)" where
  "parse_number cs =
     (case cs of
        [] \<Rightarrow> Inl SyntaxError
      | c # r \<Rightarrow> if c = CHR ''-'' then parse_int True r else parse_int False (c # r))"

definition hex_val :: "char \<Rightarrow> nat option" where
  "hex_val c =
     (let n = of_char c :: nat in
      if 48 \<le> n \<and> n \<le> 57 then Some (n - 48)
      else if 97 \<le> n \<and> n \<le> 102 then Some (n - 87)
      else if 65 \<le> n \<and> n \<le> 70 then Some (n - 55)
      else None)"

definition hex4 :: "char \<Rightarrow> char \<Rightarrow> char \<Rightarrow> char \<Rightarrow> nat option" where
  "hex4 a b c d =
     (case (hex_val a, hex_val b, hex_val c, hex_val d) of
        (Some w, Some x, Some y, Some z) \<Rightarrow> Some (((w * 16 + x) * 16 + y) * 16 + z)
      | _ \<Rightarrow> None)"

definition simple_escape :: "char \<Rightarrow> char option" where
  "simple_escape e =
     (if e = DQUOTE then Some DQUOTE
      else if e = BACKSLASH then Some BACKSLASH
      else if e = CHR ''/'' then Some (CHR ''/'')
      else if e = CHR ''b'' then Some (CHR 0x08)
      else if e = CHR ''f'' then Some (CHR 0x0C)
      else if e = CHR ''n'' then Some (CHR 0x0A)
      else if e = CHR ''r'' then Some (CHR 0x0D)
      else if e = CHR ''t'' then Some (CHR 0x09)
      else None)"

definition cons_char ::
  "char \<Rightarrow> js_error + (string \<times> string) \<Rightarrow> js_error + (string \<times> string)" where
  "cons_char c res = (case res of Inl e \<Rightarrow> Inl e | Inr (s, r) \<Rightarrow> Inr (c # s, r))"

text \<open>
  The characters of a string after its opening quote, up to the closing one: the decoded
  string and the rest of the text. A raw code unit below 0x20 is a syntax error.
\<close>

fun parse_chars :: "string \<Rightarrow> js_error + (string \<times> string)" where
  "parse_chars [] = Inl SyntaxError"
| "parse_chars (c # cs) =
     (if c = DQUOTE then Inr ([], cs)
      else if c = BACKSLASH then
        (case cs of
           [] \<Rightarrow> Inl SyntaxError
         | e # r \<Rightarrow>
             if e = CHR ''u'' then
               (case r of
                  h1 # h2 # h3 # h4 # r' \<Rightarrow>
                    (case hex4 h1 h2 h3 h4 of
                       None \<Rightarrow> Inl SyntaxError
                     | Some n \<Rightarrow>
                         if n < 256 then cons_char (char_of n) (parse_chars r')
                         else Inl Unmodelled)
                | _ \<Rightarrow> Inl SyntaxError)
             else
               (case simple_escape e of
                  None \<Rightarrow> Inl SyntaxError
                | Some x \<Rightarrow> cons_char x (parse_chars r)))
      else if (of_char c :: nat) < 0x20 then Inl SyntaxError
      else cons_char c (parse_chars cs))"

text \<open>
  JSON.parse builds an object by CreateDataProperty, one member after the other: a key
  already present keeps its place and takes the new value; a new key that is an array index
  (the canonical decimal of a number below \<open>2^32 - 1\<close>) goes among the index keys in
  ascending order, before every other key; any other new key goes last.
\<close>

definition array_index :: "string \<Rightarrow> nat option" where
  "array_index k =
     (if k = [] \<or> \<not> list_all is_digit k \<or> (hd k = CHR ''0'' \<and> 1 < length k) then None
      else (let n = fst (parse_digits 0 k) in if n < 4294967295 then Some n else None))"

fun insert_index ::
  "nat \<Rightarrow> string \<Rightarrow> json \<Rightarrow> (string \<times> json) list \<Rightarrow> (string \<times> json) list" where
  "insert_index i k v [] = [(k, v)]"
| "insert_index i k v ((k', v') # ps) =
     (case array_index k' of
        Some j \<Rightarrow> if j < i then (k', v') # insert_index i k v ps else (k, v) # (k', v') # ps
      | None \<Rightarrow> (k, v) # (k', v') # ps)"

definition CreateDataProperty ::
  "(string \<times> json) list \<Rightarrow> string \<Rightarrow> json \<Rightarrow> (string \<times> json) list" where
  "CreateDataProperty ps k v =
     (if k \<in> fst ` set ps then map (\<lambda>(k', v'). if k' = k then (k', v) else (k', v')) ps
      else (case array_index k of
              Some i \<Rightarrow> insert_index i k v ps
            | None \<Rightarrow> ps @ [(k, v)]))"

definition expect_literal :: "string \<Rightarrow> json \<Rightarrow> string \<Rightarrow> js_error + (json \<times> string)" where
  "expect_literal lit v cs =
     (if take (length lit) cs = lit then Inr (v, drop (length lit) cs) else Inl SyntaxError)"

definition parse_scalar :: "string \<Rightarrow> js_error + (json \<times> string)" where
  "parse_scalar cs =
     (case cs of
        [] \<Rightarrow> Inl SyntaxError
      | c # r \<Rightarrow>
          if c = CHR ''n'' then expect_literal ''null'' JNull cs
          else if c = CHR ''t'' then expect_literal ''true'' (JBool True) cs
          else if c = CHR ''f'' then expect_literal ''false'' (JBool False) cs
          else if c = DQUOTE then
            (case parse_chars r of Inl e \<Rightarrow> Inl e | Inr (s, r') \<Rightarrow> Inr (JStr s, r'))
          else parse_number cs)"

text \<open>
  \<open>closing close cs\<close>: the text after the bracket \<open>close\<close>, when that is the next token.
  \<open>separator close cs\<close>: after an element, a comma (more follow) or the closing bracket.
\<close>

definition closing :: "char \<Rightarrow> string \<Rightarrow> string option" where
  "closing close cs =
     (case skip_ws cs of [] \<Rightarrow> None | c # r \<Rightarrow> if c = close then Some r else None)"

definition separator :: "char \<Rightarrow> string \<Rightarrow> (bool \<times> string) option" where
  "separator close cs =
     (case skip_ws cs of
        [] \<Rightarrow> None
      | c # r \<Rightarrow>
          if c = CHR '','' then Some (True, r)
          else if c = close then Some (False, r)
          else None)"

definition parse_key :: "string \<Rightarrow> js_error + (string \<times> string)" where
  "parse_key cs =
     (case skip_ws cs of
        [] \<Rightarrow> Inl SyntaxError
      | q # r0 \<Rightarrow>
          if q \<noteq> DQUOTE then Inl SyntaxError
          else
            (case parse_chars r0 of
               Inl e \<Rightarrow> Inl e
             | Inr (k, r1) \<Rightarrow>
                 (case skip_ws r1 of
                    [] \<Rightarrow> Inl SyntaxError
                  | c # r2 \<Rightarrow> if c = CHR '':'' then Inr (k, r2) else Inl SyntaxError)))"

fun parse_value :: "nat \<Rightarrow> string \<Rightarrow> js_error + (json \<times> string)"
and parse_elems :: "nat \<Rightarrow> json list \<Rightarrow> string \<Rightarrow> js_error + (json \<times> string)"
and parse_members ::
  "nat \<Rightarrow> (string \<times> json) list \<Rightarrow> string \<Rightarrow> js_error + (json \<times> string)"
where
  "parse_value 0 cs = Inl Unmodelled"
| "parse_value (Suc n) cs =
     (case skip_ws cs of
        [] \<Rightarrow> Inl SyntaxError
      | c # r \<Rightarrow>
          if c = CHR ''['' then
            (case closing (CHR '']'') r of
               Some r' \<Rightarrow> Inr (JArr [], r')
             | None \<Rightarrow> parse_elems n [] r)
          else if c = CHR ''{'' then
            (case closing (CHR ''}'') r of
               Some r' \<Rightarrow> Inr (JObj [], r')
             | None \<Rightarrow> parse_members n [] r)
          else parse_scalar (c # r))"
| "parse_elems 0 acc cs = Inl Unmodelled"
| "parse_elems (Suc n) acc cs =
     (case parse_value n cs of
        Inl e \<Rightarrow> Inl e
      | Inr (v, r) \<Rightarrow>
          (case separator (CHR '']'') r of
             None \<Rightarrow> Inl SyntaxError
           | Some (more, r') \<Rightarrow>
               if more then parse_elems n (acc @ [v]) r' else Inr (JArr (acc @ [v]), r')))"
| "parse_members 0 acc cs = Inl Unmodelled"
| "parse_members (Suc n) acc cs =
     (case parse_key cs of
        Inl e \<Rightarrow> Inl e
      | Inr (k, r) \<Rightarrow>
          (case parse_value n r of
             Inl e \<Rightarrow> Inl e
           | Inr (v, r') \<Rightarrow>
               (case separator (CHR ''}'') r' of
                  None \<Rightarrow> Inl SyntaxError
                | Some (more, r'') \<Rightarrow>
                    if more then parse_members n (CreateDataProperty acc k v) r''
                    else Inr (JObj (CreateDataProperty acc k v), r''))))"

definition JSON_parse :: "string \<Rightarrow> js_error + json" where
  "JSON_parse text =
     (case parse_value (2 * length text + 2) text of
        Inl e \<Rightarrow> Inl e
      | Inr (v, r) \<Rightarrow> if skip_ws r = [] then Inr v else Inl SyntaxError)"

subsection \<open>The values \<^verbatim>\<open>request.json()\<close> can return\<close>

text \<open>
  \<open>js_value\<close> holds of the model's values that a JavaScript program can hold: numbers
  within the safe integers, and the properties of every object distinct and in
  OrdinaryOwnPropertyKeys order (array indices ascending, then the other keys).
\<close>

definition key_before :: "string \<Rightarrow> string \<Rightarrow> bool" where
  "key_before k k' =
     (case array_index k' of
        None \<Rightarrow> True
      | Some j \<Rightarrow> (case array_index k of None \<Rightarrow> False | Some i \<Rightarrow> i < j))"

definition own_property_order :: "string list \<Rightarrow> bool" where
  "own_property_order ks = (distinct ks \<and> sorted_wrt key_before ks)"

fun js_value :: "json \<Rightarrow> bool"
and js_values :: "json list \<Rightarrow> bool"
and js_props :: "(string \<times> json) list \<Rightarrow> bool"
where
  "js_value JNull = True"
| "js_value (JBool b) = True"
| "js_value (JNum n) = (\<bar>n\<bar> \<le> int MAX_SAFE_INTEGER)"
| "js_value (JStr s) = True"
| "js_value (JArr xs) = js_values xs"
| "js_value (JObj ps) = (own_property_order (map fst ps) \<and> js_props ps)"
| "js_values [] = True"
| "js_values (x # xs) = (js_value x \<and> js_values xs)"
| "js_props [] = True"
| "js_props ((k, v) # ps) = (js_value v \<and> js_props ps)"

section \<open>The session routes (src/app/api/sessions)\<close>

subsection \<open>The sessions directory\<close>

text \<open>
  \<^verbatim>\<open>data/sessions\<close> is the list of its entries in \<^verbatim>\<open>readdir\<close> order, or \<open>None\<close> while
  the directory does not exist. An entry is a file with its text, or \<open>Denied\<close>: a name
  whose read or write throws (a subdirectory of that name, a file without permission).
  \<^verbatim>\<open>ensureSessionsDir\<close> creates the missing directory (\<^verbatim>\<open>mkdir\<close> is taken to succeed).
\<close>

datatype fnode = File string | Denied

type_synonym sessions_dir = "(string \<times> fnode) list option"

definition ensureSessionsDir :: "sessions_dir \<Rightarrow> sessions_dir" where
  "ensureSessionsDir fs = (case fs of None \<Rightarrow> Some [] | Some dir \<Rightarrow> Some dir)"

definition readdir :: "sessions_dir \<Rightarrow> js_error + string list" where
  "readdir fs = (case fs of None \<Rightarrow> Inl ENOENT | Some dir \<Rightarrow> Inr (map fst dir))"

definition readFile :: "sessions_dir \<Rightarrow> string \<Rightarrow> js_error + string" where
  "readFile fs name =
     (case fs of
        None \<Rightarrow> Inl ENOENT
      | Some dir \<Rightarrow>
          (case map_of dir name of
             None \<Rightarrow> Inl ENOENT
           | Some Denied \<Rightarrow> Inl EACCES
           | Some (File text) \<Rightarrow> Inr text))"

fun write_entry :: "string \<Rightarrow> string \<Rightarrow> (string \<times> fnode) list \<Rightarrow> (string \<times> fnode) list" where
  "write_entry name text [] = [(name, File text)]"
| "write_entry name text ((n, f) # es) =
     (if n = name then (n, File text) # es else (n, f) # write_entry name text es)"

definition writeFile :: "sessions_dir \<Rightarrow> string \<Rightarrow> string \<Rightarrow> js_error + sessions_dir" where
  "writeFile fs name text =
     (case fs of
        None \<Rightarrow> Inl ENOENT
      | Some dir \<Rightarrow>
          (case map_of dir name of
             Some Denied \<Rightarrow> Inl EACCES
           | _ \<Rightarrow> Inr (Some (write_entry name text dir))))"

text \<open>
  \<^verbatim>\<open>path.join(SESSIONS_DIR, `${id}.json`)\<close>: the entry \<^verbatim>\<open>id.json\<close> of the directory. An id
  with a path separator names a file elsewhere, and one with a NUL is refused by \<^verbatim>\<open>fs\<close>; the
  directory alone does not decide what happens then, so both are outside the model.
\<close>

definition session_path :: "string \<Rightarrow> js_error + string" where
  "session_path sid =
     (if CHR ''/'' \<in> set sid \<or> CHR 0x00 \<in> set sid then Inl Unmodelled else Inr (sid @ ''.json''))"

subsection \<open>Responses and try/catch\<close>

record response =
  status :: nat
  body :: json

definition NextResponse_json :: "json \<Rightarrow> nat \<Rightarrow> response" where
  "NextResponse_json data code = \<lparr>status = code, body = data\<rparr>"

definition error_body :: "string \<Rightarrow> json" where
  "error_body msg = JObj [(''error'', JStr msg)]"

text \<open>
  \<^verbatim>\<open>try { block } catch (error) { handler }\<close>: the block's value, or the handler's for
  the exception caught. \<open>Unmodelled\<close> is no exception and passes through as \<open>None\<close>.
\<close>

definition try_catch :: "js_error + 'a \<Rightarrow> (js_error \<Rightarrow> 'a) \<Rightarrow> 'a option" where
  "try_catch block handler =
     (case block of
        Inr r \<Rightarrow> Some r
      | Inl e \<Rightarrow> if e = Unmodelled then None else Some (handler e))"

subsection \<open>GET /api/sessions/[id]\<close>

definition read_session :: "sessions_dir \<Rightarrow> string \<Rightarrow> js_error + json" where
  "read_session fs sid =
     (case session_path sid of
        Inl e \<Rightarrow> Inl e
      | Inr filePath \<Rightarrow>
          (case readFile fs filePath of
             Inl e \<Rightarrow> Inl e
           | Inr content \<Rightarrow> JSON_parse content))"

definition GET_session :: "sessions_dir \<Rightarrow> string \<Rightarrow> response option" where
  "GET_session fs sid =
     try_catch
       (case read_session fs sid of
          Inl e \<Rightarrow> Inl e
        | Inr session \<Rightarrow> Inr (NextResponse_json session 200))
       (\<lambda>error. NextResponse_json (error_body ''Session not found'') 404)"

subsection \<open>POST /api/sessions\<close>

text \<open>
  The template literal \<^verbatim>\<open>`${session.id}`\<close>. Reading a property of \<^verbatim>\<open>null\<close> throws a
  TypeError; a value without the property gives \<^verbatim>\<open>undefined\<close>. ToString of an array
  or an object goes through its \<^verbatim>\<open>toString\<close> property and is left outside the model.
\<close>

definition template_id :: "json \<Rightarrow> js_error + string" where
  "template_id session =
     (case session of
        JNull \<Rightarrow> Inl TypeError
      | JObj ps \<Rightarrow>
          (case map_of ps ''id'' of
             None \<Rightarrow> Inr ''undefined''
           | Some JNull \<Rightarrow> Inr ''null''
           | Some (JBool b) \<Rightarrow> Inr (if b then ''true'' else ''false'')
           | Some (JNum n) \<Rightarrow> Inr (NumberToString n)
           | Some (JStr s) \<Rightarrow> Inr s
           | Some (JArr xs) \<Rightarrow> Inl Unmodelled
           | Some (JObj qs) \<Rightarrow> Inl Unmodelled)
      | _ \<Rightarrow> Inr ''undefined'')"

text \<open>
  \<open>request\<close> is the outcome of \<^verbatim>\<open>await request.json()\<close>: the parsed body, or the exception
  it threw. A body that is not a value of the model (\<open>js_value\<close>) is not followed further.
  The handler returns the directory as it leaves it and the response.
\<close>

definition write_session :: "sessions_dir \<Rightarrow> json \<Rightarrow> js_error + sessions_dir" where
  "write_session fs session =
     (if \<not> js_value session then Inl Unmodelled
      else
        (case template_id session of
           Inl e \<Rightarrow> Inl e
         | Inr sid \<Rightarrow>
             (case session_path sid of
                Inl e \<Rightarrow> Inl e
              | Inr filePath \<Rightarrow> writeFile fs filePath (JSON_stringify session))))"

definition POST :: "sessions_dir \<Rightarrow> js_error + json \<Rightarrow> (sessions_dir \<times> response) option" where
  "POST fs request =
     (let fs1 = ensureSessionsDir fs in
      try_catch
        (case request of
           Inl e \<Rightarrow> Inl e
         | Inr session \<Rightarrow>
             (case write_session fs1 session of
                Inl e \<Rightarrow> Inl e
              | Inr fs2 \<Rightarrow> Inr (fs2, NextResponse_json session 200)))
        (\<lambda>error. (fs1, NextResponse_json (error_body ''Failed to create session'') 500)))"

subsection \<open>GET /api/sessions\<close>

definition endsWith :: "string \<Rightarrow> string \<Rightarrow> bool" where
  "endsWith s suffix =
     (length suffix \<le> length s \<and> drop (length s - length suffix) s = suffix)"

text \<open>
  \<^verbatim>\<open>Promise.all\<close> over the reads: all the values in order, or an exception when one of the
  reads threw. Only when none threw can an unmodelled read decide the outcome.
\<close>

definition Promise_all :: "(js_error + 'a) list \<Rightarrow> js_error + 'a list" where
  "Promise_all rs =
     (case filter (\<lambda>r. case r of Inl e \<Rightarrow> e \<noteq> Unmodelled | Inr v \<Rightarrow> False) rs of
        Inl e # _ \<Rightarrow> Inl e
      | _ \<Rightarrow>
          if Inl Unmodelled \<in> set rs then Inl Unmodelled
          else Inr (concat (map (\<lambda>r. case r of Inl e \<Rightarrow> [] | Inr v \<Rightarrow> [v]) rs)))"

text \<open>
  The comparator \<^verbatim>\<open>(a, b) => b.timestamp - a.timestamp\<close>. \<^verbatim>\<open>.timestamp\<close> of \<^verbatim>\<open>null\<close> throws a
  TypeError. A timestamp that is missing or not a number makes the difference \<^verbatim>\<open>NaN\<close> or
  goes through JavaScript's coercions; the order \<^verbatim>\<open>sort\<close> produces is then
  implementation-defined, and the model leaves it open.
\<close>

definition timestamp :: "json \<Rightarrow> js_error + int" where
  "timestamp session =
     (case session of
        JNull \<Rightarrow> Inl TypeError
      | JObj ps \<Rightarrow>
          (case map_of ps ''timestamp'' of
             Some (JNum n) \<Rightarrow> Inr n
           | _ \<Rightarrow> Inl Unmodelled)
      | _ \<Rightarrow> Inl Unmodelled)"

definition compare_sessions :: "json \<Rightarrow> json \<Rightarrow> js_error + int" where
  "compare_sessions a b =
     (case timestamp b of
        Inl e \<Rightarrow> Inl e
      | Inr tb \<Rightarrow> (case timestamp a of Inl e \<Rightarrow> Inl e | Inr ta \<Rightarrow> Inr (tb - ta)))"

text \<open>
  \<^verbatim>\<open>Array.prototype.sort\<close> with a comparator: ECMAScript requires a stable sort, which for
  a consistent comparator fixes the result; insertion from the right is one such sort.
  An element goes before the first element it does not compare greater than. An exception
  of the comparator leaves the sort.
\<close>

fun insert_by :: "('a \<Rightarrow> 'a \<Rightarrow> js_error + int) \<Rightarrow> 'a \<Rightarrow> 'a list \<Rightarrow> js_error + 'a list" where
  "insert_by cmp x [] = Inr [x]"
| "insert_by cmp x (y # ys) =
     (case cmp x y of
        Inl e \<Rightarrow> Inl e
      | Inr c \<Rightarrow>
          if c \<le> 0 then Inr (x # y # ys)
          else (case insert_by cmp x ys of Inl e \<Rightarrow> Inl e | Inr zs \<Rightarrow> Inr (y # zs)))"

fun Array_sort :: "('a \<Rightarrow> 'a \<Rightarrow> js_error + int) \<Rightarrow> 'a list \<Rightarrow> js_error + 'a list" where
  "Array_sort cmp [] = Inr []"
| "Array_sort cmp (x # xs) =
     (case Array_sort cmp xs of Inl e \<Rightarrow> Inl e | Inr ys \<Rightarrow> insert_by cmp x ys)"

definition read_json_file :: "sessions_dir \<Rightarrow> string \<Rightarrow> js_error + json" where
  "read_json_file fs file =
     (case readFile fs file of Inl e \<Rightarrow> Inl e | Inr content \<Rightarrow> JSON_parse content)"

definition read_all_sessions :: "sessions_dir \<Rightarrow> js_error + json list" where
  "read_all_sessions fs =
     (case readdir fs of
        Inl e \<Rightarrow> Inl e
      | Inr files \<Rightarrow>
          Promise_all (map (read_json_file fs) (filter (\<lambda>f. endsWith f ''.json'') files)))"

definition GET_sessions :: "sessions_dir \<Rightarrow> (sessions_dir \<times> response) option" where
  "GET_sessions fs =
     (let fs1 = ensureSessionsDir fs in
      try_catch
        (case read_all_sessions fs1 of
           Inl e \<Rightarrow> Inl e
         | Inr sessions \<Rightarrow>
             (case Array_sort compare_sessions sessions of
                Inl e \<Rightarrow> Inl e
              | Inr ordered \<Rightarrow> Inr (fs1, NextResponse_json (JArr ordered) 200)))
        (\<lambda>error. (fs1, NextResponse_json (error_body ''Failed to read sessions'') 500)))"

section \<open>The notification store (spec, sections 3 and 4.3)\<close>

text \<open>
  Modelled from the spec: the notification store (the repository's notification agent is
  Python code that is not among the sources). The definitions follow sections 3 and 4.3 of
  the spec word for word: a notification has an id, a title, a message, a priority, a
  creation time, a read flag and an optional delivery time; the store owns the sequence of
  its items in insertion order. The spec asks for ids that are "monotonically assigned"
  and "never reused within a store lifetime"; the model keeps the next id to assign in the
  store, the one datum the spec does not name. Time is the caller's clock reading \<open>now\<close>,
  passed to every operation that the spec lets depend on it.
\<close>

datatype priority = Low | Normal | High | Urgent

record notification =
  nid :: nat
  title :: string
  message :: string
  priority :: priority
  createdAt :: int
  read :: bool
  deliverAt :: "int option"

record store =
  items :: "notification list"
  next_id :: nat

datatype store_error = NotificationNotFound

definition new_store :: store where
  "new_store = \<lparr>items = [], next_id = 1\<rparr>"

text \<open>Modelled from the spec: "assigns a new id, persists the record, returns it".\<close>

definition sendNotification ::
  "int \<Rightarrow> string \<Rightarrow> string \<Rightarrow> priority \<Rightarrow> int option \<Rightarrow> store \<Rightarrow> notification \<times> store" where
  "sendNotification now t m p due st =
     (let n = \<lparr>nid = next_id st, title = t, message = m, priority = p, createdAt = now,
               read = False, deliverAt = due\<rparr>
      in (n, st\<lparr>items := items st @ [n], next_id := Suc (next_id st)\<rparr>))"

text \<open>Modelled from the spec: "currently-visible notifications (now \<ge> deliverAt or
  deliverAt absent), newest first; if unreadOnly, filters to read = false".\<close>

definition visible :: "int \<Rightarrow> notification \<Rightarrow> bool" where
  "visible now n = (case deliverAt n of None \<Rightarrow> True | Some due \<Rightarrow> due \<le> now)"

definition getNotifications :: "int \<Rightarrow> bool \<Rightarrow> store \<Rightarrow> notification list" where
  "getNotifications now unreadOnly st =
     rev (filter (\<lambda>n. visible now n \<and> (if unreadOnly then \<not> read n else True)) (items st))"

text \<open>Modelled from the spec: "sets read = true; fails with NotFound if id does not
  exist".\<close>

definition markRead :: "nat \<Rightarrow> store \<Rightarrow> store_error + (notification \<times> store)" where
  "markRead i st =
     (case find (\<lambda>n. nid n = i) (items st) of
        None \<Rightarrow> Inl NotificationNotFound
      | Some n \<Rightarrow>
          Inr (n\<lparr>read := True\<rparr>,
               st\<lparr>items := map (\<lambda>m. if nid m = i then m\<lparr>read := True\<rparr> else m) (items st)\<rparr>))"

text \<open>Modelled from the spec: "removes read notifications if onlyRead, else removes
  all", returning the count removed.\<close>

definition clearNotifications :: "bool \<Rightarrow> store \<Rightarrow> nat \<times> store" where
  "clearNotifications onlyRead st =
     (let kept = (if onlyRead then filter (\<lambda>n. \<not> read n) (items st) else [])
      in (length (items st) - length kept, st\<lparr>items := kept\<rparr>))"

text \<open>Modelled from the spec: "convenience wrapper computing deliverAt = now + delay and
  creating a pending record". The spec names no default priority; \<open>Normal\<close> is taken.\<close>

definition scheduleReminder ::
  "int \<Rightarrow> string \<Rightarrow> string \<Rightarrow> int \<Rightarrow> priority option \<Rightarrow> store \<Rightarrow> notification \<times> store" where
  "scheduleReminder now t m delay p st =
     sendNotification now t m (case p of None \<Rightarrow> Normal | Some q \<Rightarrow> q) (Some (now + delay)) st"

text \<open>
  Modelled from the spec: a store lifetime is a sequence of calls, each at a clock reading,
  starting from the new store. \<open>run\<close> returns the ids assigned, in the order they were
  assigned, and the store reached.
\<close>

datatype call =
    SendNotification string string priority "int option"
  | ScheduleReminder string string int "priority option"
  | MarkRead nat
  | ClearNotifications bool

fun perform :: "int \<times> call \<Rightarrow> nat list \<times> store \<Rightarrow> nat list \<times> store" where
  "perform (now, SendNotification t m p due) (ids, st) =
     (case sendNotification now t m p due st of (n, st') \<Rightarrow> (ids @ [nid n], st'))"
| "perform (now, ScheduleReminder t m delay p) (ids, st) =
     (case scheduleReminder now t m delay p st of (n, st') \<Rightarrow> (ids @ [nid n], st'))"
| "perform (now, MarkRead i) (ids, st) =
     (case markRead i st of Inl e \<Rightarrow> (ids, st) | Inr (n, st') \<Rightarrow> (ids, st'))"
| "perform (now, ClearNotifications onlyRead) (ids, st) =
     (ids, snd (clearNotifications onlyRead st))"

definition run :: "(int \<times> call) list \<Rightarrow> nat list \<times> store" where
  "run calls = foldl (\<lambda>acc c. perform c acc) ([], new_store) calls"

section \<open>Notions used in the proofs\<close>

text \<open>The number a digit string denotes, read from the left with a carry.\<close>

definition digits_value :: "nat \<Rightarrow> string \<Rightarrow> nat" where
  "digits_value acc ds = foldl (\<lambda>a c. 10 * a + digit_val c) acc ds"

text \<open>A text after which a number has ended: it does not go on with a digit, a
  fraction or an exponent.\<close>

definition delimited :: "string \<Rightarrow> bool" where
  "delimited rest =
     (case rest of [] \<Rightarrow> True
      | c # _ \<Rightarrow> \<not> is_digit c \<and> c \<noteq> CHR ''.'' \<and> c \<noteq> CHR ''e'' \<and> c \<noteq> CHR ''E'')"

text \<open>The characters a serialized value can start with.\<close>

definition value_start :: "char \<Rightarrow> bool" where
  "value_start c =
     (c = CHR ''n'' \<or> c = CHR ''t'' \<or> c = CHR ''f'' \<or> c = DQUOTE \<or> c = CHR ''['' \<or> c = CHR ''{''
      \<or> c = CHR ''-'' \<or> is_digit c)"

text \<open>Fuel that suffices to read a value back: one unit for each value and each
  element or member.\<close>

fun fuel :: "json \<Rightarrow> nat"
and fuels :: "json list \<Rightarrow> nat"
and fuelp :: "(string \<times> json) list \<Rightarrow> nat"
where
  "fuel (JArr xs) = Suc (fuels xs)"
| "fuel (JObj ps) = Suc (fuelp ps)"
| "fuel JNull = Suc 0"
| "fuel (JBool b) = Suc 0"
| "fuel (JNum n) = Suc 0"
| "fuel (JStr s) = Suc 0"
| "fuels [] = 0"
| "fuels (x # xs) = Suc (fuel x + fuels xs)"
| "fuelp [] = 0"
| "fuelp ((k, v) # ps) = Suc (fuel v + fuelp ps)"

text \<open>The timestamp of a session that has one.\<close>

definition the_timestamp :: "json \<Rightarrow> int" where
  "the_timestamp session = (case timestamp session of Inr t \<Rightarrow> t | Inl e \<Rightarrow> 0)"

section \<open>Example data\<close>

definition example_session :: json where
  "example_session =
     JObj [(''id'', JStr ''1700000000000''), (''title'', JStr ''New Session''),
           (''timestamp'', JNum 1700000000000), (''messages'', JArr [])]"

definition older_session :: json where
  "older_session = JObj [(''id'', JStr ''a''), (''timestamp'', JNum 1000)]"

definition newer_session :: json where
  "newer_session = JObj [(''id'', JStr ''b''), (''timestamp'', JNum 2000)]"

definition example_dir :: "(string \<times> fnode) list" where
  "example_dir =
     [(''a.json'', File (JSON_stringify older_session)),
      (''notes.txt'', File ''not a session''),
      (''b.json'', File (JSON_stringify newer_session))]"

definition example_store :: store where
  "example_store = snd (sendNotification 10 ''X'' ''Y'' High None new_store)"

section \<open>The agent endpoint\<close>

text \<open>
  C10: \<^verbatim>\<open>getAgentUrl\<close> is a function of \<^verbatim>\<open>NODE_ENV\<close> alone. It returns the Render
  address exactly when \<^verbatim>\<open>NODE_ENV\<close> is \<^verbatim>\<open>'production'\<close>, and the localhost address
  exactly in every other case (the unset variable included).
\<close>

theorem getAgentUrl_production_iff:
  "(getAgentUrl env = ''https://aiagentic.onrender.com/'') = (env = Some ''production'')
   \<and> (getAgentUrl env = ''http://localhost:8000/'') = (env \<noteq> Some ''production'')"
  by (simp add: getAgentUrl_def)

section \<open>Reading back what \<^verbatim>\<open>JSON.stringify\<close> wrote\<close>

subsection \<open>Strings\<close>

lemma hex_digit_table: "list_all (\<lambda>n. hex_val (hex_digit n) = Some n) [0..<16]"
  by code_simp

lemma hex_val_hex_digit: "n < 16 \<Longrightarrow> hex_val (hex_digit n) = Some n"
  using hex_digit_table by (simp add: list_all_iff)

lemma hex4_escape:
  assumes "(of_char c :: nat) < 32"
  shows "hex4 (CHR ''0'') (CHR ''0'') (hex_digit (of_char c div 16)) (hex_digit (of_char c mod 16))
           = Some (of_char c)"
proof -
  have "(of_char c :: nat) div 16 < 16" using assms by simp
  then have a: "hex_val (hex_digit (of_char c div 16)) = Some (of_char c div 16)"
    by (rule hex_val_hex_digit)
  have b: "hex_val (hex_digit (of_char c mod 16)) = Some (of_char c mod 16)"
    by (rule hex_val_hex_digit) simp
  have z: "hex_val (CHR ''0'') = Some 0" by (simp add: hex_val_def)
  show ?thesis by (simp add: hex4_def a b z)
qed

lemma parse_chars_quote_char:
  "parse_chars (quote_char c @ cs) = cons_char c (parse_chars cs)"
proof (cases "(of_char c :: nat) < 32")
  case True
  note small = this
  show ?thesis
  proof (cases "c = CHR 0x08 \<or> c = CHR 0x09 \<or> c = CHR 0x0A \<or> c = CHR 0x0C \<or> c = CHR 0x0D")
    case True
    then show ?thesis
      by (elim disjE) (simp_all add: quote_char_def simple_escape_def)
  next
    case False
    have q: "c \<noteq> DQUOTE" "c \<noteq> BACKSLASH" using small by auto
    have "quote_char c = unicode_escape c"
      using False q small by (simp add: quote_char_def)
    then show ?thesis
      using small by (simp add: unicode_escape_def hex4_escape)
  qed
next
  case False
  then have n: "c \<noteq> CHR 0x08" "c \<noteq> CHR 0x09" "c \<noteq> CHR 0x0A" "c \<noteq> CHR 0x0C" "c \<noteq> CHR 0x0D"
    by auto
  show ?thesis
  proof (cases "c = DQUOTE \<or> c = BACKSLASH")
    case True
    then show ?thesis by (elim disjE) (simp_all add: quote_char_def simple_escape_def)
  next
    case False
    then show ?thesis using n \<open>\<not> (of_char c :: nat) < 32\<close>
      by (simp add: quote_char_def)
  qed
qed

lemma parse_chars_quoted:
  "parse_chars (concat (map quote_char s) @ DQUOTE # rest) = Inr (s, rest)"
  by (induction s) (simp_all add: parse_chars_quote_char cons_char_def)

lemma QuoteJSONString_parse:
  "QuoteJSONString s @ rest = DQUOTE # concat (map quote_char s) @ DQUOTE # rest"
  by (simp add: QuoteJSONString_def)


subsection \<open>Numbers\<close>

lemma digit_char_table:
  "list_all (\<lambda>n. is_digit (digit_char n) \<and> digit_val (digit_char n) = n
      \<and> (digit_char n = CHR ''0'') = (n = 0) \<and> digit_char n \<noteq> CHR ''-'') [0..<10]"
  by code_simp

lemma digit_char_props:
  assumes "n < 10"
  shows "is_digit (digit_char n)" and "digit_val (digit_char n) = n"
    and "(digit_char n = CHR ''0'') = (n = 0)" and "digit_char n \<noteq> CHR ''-''"
  using digit_char_table assms by (simp_all add: list_all_iff)

lemma parse_digits_append:
  "list_all is_digit ds \<Longrightarrow> parse_digits acc (ds @ rest) = parse_digits (digits_value acc ds) rest"
  by (induction ds arbitrary: acc) (simp_all add: digits_value_def)

lemma digits_of_all_digits: "list_all is_digit (digits_of n)"
  by (induction n rule: digits_of.induct)
     (subst digits_of.simps, simp add: digit_char_props)

lemma digits_of_value: "digits_value 0 (digits_of n) = n"
  by (induction n rule: digits_of.induct)
     (subst digits_of.simps, simp add: digit_char_props digits_value_def)

lemma digits_of_nonempty: "digits_of n \<noteq> []"
  by (subst digits_of.simps) simp

lemma hd_digits_of: "(hd (digits_of n) = CHR ''0'') = (n = 0)"
proof (induction n rule: digits_of.induct)
  case (1 n)
  show ?case
  proof (cases "n < 10")
    case True
    then show ?thesis by (subst digits_of.simps) (simp add: digit_char_props)
  next
    case False
    then have "hd (digits_of n) = hd (digits_of (n div 10))"
      by (subst digits_of.simps) (simp add: digits_of_nonempty)
    with 1 False show ?thesis by simp
  qed
qed

lemma parse_digits_delimited: "delimited rest \<Longrightarrow> parse_digits acc rest = (acc, rest)"
  by (cases rest) (simp_all add: delimited_def)

lemma delimited_no_fraction: "delimited rest \<Longrightarrow> \<not> fraction_or_exponent rest"
  by (cases rest) (simp_all add: delimited_def fraction_or_exponent_def)

lemma parse_int_digits_of:
  assumes "delimited rest" and "m \<le> MAX_SAFE_INTEGER"
  shows "parse_int neg (digits_of m @ rest) = Inr (JNum (if neg then - int m else int m), rest)"
proof -
  obtain c ds where cd: "digits_of m = c # ds"
    using digits_of_nonempty [of m] by (cases "digits_of m") auto
  have all: "list_all is_digit (c # ds)"
    using digits_of_all_digits [of m] by (simp add: cd)
  have val: "digits_value 0 (c # ds) = m"
    using digits_of_value [of m] by (simp add: cd)
  have zero: "(c = CHR ''0'') = (m = 0)"
    using hd_digits_of [of m] by (simp add: cd)
  have whole: "parse_digits 0 ((c # ds) @ rest) = (m, rest)"
    using parse_digits_append [OF all, of 0 rest] val assms(1)
    by (simp add: parse_digits_delimited)
  have first: "(if c = CHR ''0'' then (0, ds @ rest) else parse_digits (digit_val c) (ds @ rest))
                 = (m, rest)"
  proof (cases "m = 0")
    case True
    then have "digits_of m = [CHR ''0'']"
      by (subst digits_of.simps) (simp add: digit_char_def)
    then show ?thesis using True cd by simp
  next
    case False
    then show ?thesis using whole all zero by simp
  qed
  show ?thesis
    using all first assms
    by (simp add: parse_int_def cd delimited_no_fraction)
qed

lemma parse_number_NumberToString:
  assumes "delimited rest" and "\<bar>n\<bar> \<le> int MAX_SAFE_INTEGER"
  shows "parse_number (NumberToString n @ rest) = Inr (JNum n, rest)"
proof (cases "n < 0")
  case True
  then have "nat (- n) \<le> MAX_SAFE_INTEGER" using assms(2) by simp
  from parse_int_digits_of [OF assms(1) this, of True] True
  show ?thesis by (simp add: parse_number_def NumberToString_def)
next
  case False
  then have le: "nat n \<le> MAX_SAFE_INTEGER" using assms(2) by simp
  obtain c ds where cd: "digits_of (nat n) = c # ds"
    using digits_of_nonempty [of "nat n"] by (cases "digits_of (nat n)") auto
  have "is_digit c" using digits_of_all_digits [of "nat n"] by (simp add: cd)
  then have "c \<noteq> CHR ''-''" by (auto simp: is_digit_def)
  with parse_int_digits_of [OF assms(1) le, of False] False cd
  show ?thesis by (simp add: parse_number_def NumberToString_def)
qed


subsection \<open>Properties in own-property order\<close>

lemma insert_index_append:
  "\<forall>k' \<in> fst ` set ps. \<exists>j. array_index k' = Some j \<and> j < i \<Longrightarrow>
   insert_index i k v ps = ps @ [(k, v)]"
  by (induction ps) auto

lemma CreateDataProperty_append:
  assumes "own_property_order (map fst ps @ [k])"
  shows "CreateDataProperty ps k v = ps @ [(k, v)]"
proof -
  from assms have fresh: "k \<notin> fst ` set ps"
    and before: "\<forall>k' \<in> fst ` set ps. key_before k' k"
    by (auto simp: own_property_order_def sorted_wrt_append)
  show ?thesis
  proof (cases "array_index k")
    case None
    with fresh show ?thesis by (simp add: CreateDataProperty_def)
  next
    case (Some i)
    with before have "\<forall>k' \<in> fst ` set ps. \<exists>j. array_index k' = Some j \<and> j < i"
      by (auto simp: key_before_def split: option.splits)
    then have "insert_index i k v ps = ps @ [(k, v)]" by (rule insert_index_append)
    with fresh Some show ?thesis by (simp add: CreateDataProperty_def)
  qed
qed

lemma own_property_order_prefix:
  "own_property_order (ks @ ks') \<Longrightarrow> own_property_order ks"
  by (auto simp: own_property_order_def sorted_wrt_append)

subsection \<open>Whitespace\<close>

lemma skip_ws_indent: "skip_ws (indent d @ cs) = skip_ws cs"
  by (induction d) (simp_all add: is_ws_def)

lemma skip_ws_newline_indent: "skip_ws (NEWLINE # indent d @ cs) = skip_ws cs"
  by (simp add: is_ws_def skip_ws_indent)

lemma skip_ws_idem: "skip_ws (skip_ws cs) = skip_ws cs"
  by (induction cs) simp_all

lemma parse_value_skip_ws: "parse_value n (skip_ws cs) = parse_value n cs"
  by (cases n) (simp_all add: skip_ws_idem)

lemma parse_elems_skip_ws: "parse_elems n acc (skip_ws cs) = parse_elems n acc cs"
  by (cases n) (simp_all add: parse_value_skip_ws)

lemma parse_key_skip_ws: "parse_key (skip_ws cs) = parse_key cs"
  by (simp add: parse_key_def skip_ws_idem)

lemma parse_members_skip_ws: "parse_members n acc (skip_ws cs) = parse_members n acc cs"
  by (cases n) (simp_all add: parse_key_skip_ws)

lemma parse_value_newline_indent:
  "parse_value n (NEWLINE # indent d @ cs) = parse_value n cs"
  using parse_value_skip_ws [of n "NEWLINE # indent d @ cs"] parse_value_skip_ws [of n cs]
  by (simp only: skip_ws_newline_indent)

lemma parse_elems_newline_indent:
  "parse_elems n acc (NEWLINE # indent d @ cs) = parse_elems n acc cs"
  using parse_elems_skip_ws [of n acc "NEWLINE # indent d @ cs"] parse_elems_skip_ws [of n acc cs]
  by (simp only: skip_ws_newline_indent)

lemma parse_members_newline_indent:
  "parse_members n acc (NEWLINE # indent d @ cs) = parse_members n acc cs"
  using parse_members_skip_ws [of n acc "NEWLINE # indent d @ cs"]
    parse_members_skip_ws [of n acc cs]
  by (simp only: skip_ws_newline_indent)

lemma parse_value_space: "parse_value n (CHR '' '' # cs) = parse_value n cs"
  using parse_value_skip_ws [of n "CHR '' '' # cs"] parse_value_skip_ws [of n cs]
  by (simp add: is_ws_def)

subsection \<open>How a serialized value starts\<close>

lemma NumberToString_start:
  "\<exists>c r. NumberToString n = c # r \<and> (c = CHR ''-'' \<or> is_digit c)"
proof -
  have "\<exists>c r. digits_of m = c # r \<and> is_digit c" for m
    using digits_of_nonempty [of m] digits_of_all_digits [of m]
    by (cases "digits_of m") auto
  from this [of "nat n"] this [of "nat (- n)"]
  show ?thesis by (auto simp: NumberToString_def)
qed

lemma serialize_start: "\<exists>c r. serialize d v = c # r \<and> value_start c"
proof (cases v)
  case (JNum n)
  then show ?thesis using NumberToString_start [of n] by (auto simp: value_start_def)
qed (auto simp: value_start_def QuoteJSONString_def)

lemma value_start_facts:
  "value_start c \<Longrightarrow> \<not> is_ws c \<and> c \<noteq> CHR '']'' \<and> c \<noteq> CHR ''}''"
  by (auto simp: value_start_def is_ws_def is_digit_def)


lemma serialize_elems_start:
  "xs \<noteq> [] \<Longrightarrow> \<exists>c r. serialize_elems d xs = c # r \<and> value_start c"
proof (cases xs)
  case (Cons x ys)
  obtain c r where "serialize d x = c # r" "value_start c"
    using serialize_start by blast
  with Cons show ?thesis by (cases ys) auto
qed simp

lemma serialize_members_start:
  "ps \<noteq> [] \<Longrightarrow> \<exists>r. serialize_members d ps = DQUOTE # r"
proof (cases ps)
  case (Cons p qs)
  then show ?thesis by (cases p; cases qs) (auto simp: QuoteJSONString_def)
qed simp

lemma parse_value_scalar:
  assumes "cs = c # r" and "value_start c" and "c \<noteq> CHR ''[''" and "c \<noteq> CHR ''{''"
  shows "parse_value (Suc n) cs = parse_scalar cs"
  using assms value_start_facts [of c] by simp

lemma parse_key_quoted:
  "parse_key (QuoteJSONString k @ CHR '':'' # rest) = Inr (k, rest)"
  by (simp add: parse_key_def QuoteJSONString_def is_ws_def parse_chars_quoted)

lemma separator_comma: "separator close (CHR '','' # rest) = Some (True, rest)"
  by (simp add: separator_def is_ws_def)

lemma separator_close:
  "close = CHR '']'' \<or> close = CHR ''}'' \<Longrightarrow>
   separator close (NEWLINE # indent d @ close # rest) = Some (False, rest)"
  by (auto simp: separator_def skip_ws_indent is_ws_def)

lemma delimited_comma [simp]: "delimited (CHR '','' # cs)"
  by (simp add: delimited_def is_digit_def)

lemma delimited_newline [simp]: "delimited (NEWLINE # cs)"
  by (simp add: delimited_def is_digit_def)

lemma parse_value_leaf:
  assumes "js_value v" and "delimited rest"
    and "\<forall>xs. v \<noteq> JArr xs" and "\<forall>ps. v \<noteq> JObj ps"
  shows "parse_value (Suc n) (serialize d v @ rest) = Inr (v, rest)"
proof (cases v)
  case JNull
  then show ?thesis by (simp add: is_ws_def parse_scalar_def expect_literal_def)
next
  case (JBool b)
  then show ?thesis by (simp add: is_ws_def parse_scalar_def expect_literal_def)
next
  case (JNum i)
  obtain c r where cr: "NumberToString i = c # r" "c = CHR ''-'' \<or> is_digit c"
    using NumberToString_start by blast
  then have vs: "value_start c" by (auto simp: value_start_def)
  have ne: "c \<noteq> CHR ''[''" "c \<noteq> CHR ''{''" "c \<noteq> CHR ''n''" "c \<noteq> CHR ''t''" "c \<noteq> CHR ''f''"
    "c \<noteq> DQUOTE"
    using cr(2) by (auto simp: is_digit_def)
  have "parse_value (Suc n) (NumberToString i @ rest) = parse_scalar (NumberToString i @ rest)"
    using parse_value_scalar [of "NumberToString i @ rest" c "r @ rest" n] cr(1) vs ne by simp
  also have "\<dots> = parse_number (NumberToString i @ rest)"
    using cr(1) ne by (simp add: parse_scalar_def)
  also have "\<dots> = Inr (JNum i, rest)"
    using assms JNum by (simp add: parse_number_NumberToString)
  finally show ?thesis using JNum by simp
next
  case (JStr s)
  then show ?thesis
    by (simp add: is_ws_def parse_scalar_def QuoteJSONString_def parse_chars_quoted)
next
  case (JArr xs)
  with assms show ?thesis by simp
next
  case (JObj ps)
  with assms show ?thesis by simp
qed


subsection \<open>The round trip\<close>

lemma closing_value_start:
  assumes "value_start c" and "close = CHR '']'' \<or> close = CHR ''}''"
  shows "closing close (NEWLINE # indent d @ c # r) = None"
  using assms value_start_facts [of c]
  by (auto simp: closing_def skip_ws_indent is_ws_def)

lemma parse_value_empty_array:
  "parse_value (Suc n) (''[]'' @ rest) = Inr (JArr [], rest)"
  by (simp add: is_ws_def closing_def)

lemma parse_value_empty_object:
  "parse_value (Suc n) (''{}'' @ rest) = Inr (JObj [], rest)"
  by (simp add: is_ws_def closing_def)

lemma parse_value_array:
  assumes "value_start c"
  shows "parse_value (Suc n) (CHR ''['' # NEWLINE # indent d @ c # r)
           = parse_elems n [] (c # r)"
proof -
  have "closing (CHR '']'') (NEWLINE # indent d @ c # r) = None"
    using assms by (simp add: closing_value_start)
  then show ?thesis
    using parse_elems_newline_indent [of n "[]" d "c # r"] by (simp add: is_ws_def)
qed

lemma parse_value_object:
  assumes "value_start c"
  shows "parse_value (Suc n) (CHR ''{'' # NEWLINE # indent d @ c # r)
           = parse_members n [] (c # r)"
proof -
  have "closing (CHR ''}'') (NEWLINE # indent d @ c # r) = None"
    using assms by (simp add: closing_value_start)
  then show ?thesis
    using parse_members_newline_indent [of n "[]" d "c # r"] by (simp add: is_ws_def)
qed

lemma parse_serialize:
  "js_value v \<Longrightarrow> fuel v \<le> n \<Longrightarrow> delimited rest \<Longrightarrow>
     parse_value n (serialize d v @ rest) = Inr (v, rest)"
  "xs \<noteq> [] \<Longrightarrow> js_values xs \<Longrightarrow> fuels xs \<le> n \<Longrightarrow>
     parse_elems n acc (serialize_elems d xs @ NEWLINE # indent d' @ CHR '']'' # rest)
       = Inr (JArr (acc @ xs), rest)"
  "ps \<noteq> [] \<Longrightarrow> js_props ps \<Longrightarrow> own_property_order (map fst (acc' @ ps)) \<Longrightarrow> fuelp ps \<le> n \<Longrightarrow>
     parse_members n acc' (serialize_members d ps @ NEWLINE # indent d' @ CHR ''}'' # rest)
       = Inr (JObj (acc' @ ps), rest)"
proof (induction d v and d xs and d ps
    arbitrary: n rest and n acc rest d' and n acc' rest d'
    rule: serialize_serialize_elems_serialize_members.induct)
  case (1 d)
  then obtain m where "n = Suc m" by (cases n) auto
  with 1 show ?case using parse_value_leaf [of JNull rest m d] by simp
next
  case (2 d b)
  then obtain m where "n = Suc m" by (cases n) auto
  with 2 show ?case using parse_value_leaf [of "JBool b" rest m d] by simp
next
  case (3 d i)
  then obtain m where "n = Suc m" by (cases n) auto
  with 3 show ?case using parse_value_leaf [of "JNum i" rest m d] by simp
next
  case (4 d s)
  then obtain m where "n = Suc m" by (cases n) auto
  with 4 show ?case using parse_value_leaf [of "JStr s" rest m d] by simp
next
  case (5 d xs)
  from "5.prems" obtain m where n: "n = Suc m" and m: "fuels xs \<le> m"
    by (cases n) auto
  show ?case
  proof (cases "xs = []")
    case True
    then show ?thesis using n parse_value_empty_array [of m rest] by simp
  next
    case False
    obtain c r where cr: "serialize_elems (Suc d) xs = c # r" "value_start c"
      using serialize_elems_start [OF False] by blast
    have "parse_value n (serialize d (JArr xs) @ rest)
            = parse_elems m [] (serialize_elems (Suc d) xs @ NEWLINE # indent d @ CHR '']'' # rest)"
      using False n cr parse_value_array [of c m "Suc d" "r @ NEWLINE # indent d @ CHR '']'' # rest"]
      by simp
    also have "\<dots> = Inr (JArr ([] @ xs), rest)"
      using "5.IH" [OF False False _ m] "5.prems"(1) by simp
    finally show ?thesis by simp
  qed
next
  case (6 d ps)
  from "6.prems" obtain m where n: "n = Suc m" and m: "fuelp ps \<le> m"
    by (cases n) auto
  show ?case
  proof (cases "ps = []")
    case True
    then show ?thesis using n parse_value_empty_object [of m rest] by simp
  next
    case False
    obtain r where r: "serialize_members (Suc d) ps = DQUOTE # r"
      using serialize_members_start [OF False] by blast
    have vs: "value_start DQUOTE" by (simp add: value_start_def)
    have "parse_value n (serialize d (JObj ps) @ rest)
            = parse_members m [] (serialize_members (Suc d) ps @ NEWLINE # indent d @ CHR ''}'' # rest)"
      using False n r parse_value_object [OF vs, of m "Suc d" "r @ NEWLINE # indent d @ CHR ''}'' # rest"]
      by simp
    also have "\<dots> = Inr (JObj ([] @ ps), rest)"
      using "6.IH" [OF False False _ _ m, of "[]"] "6.prems"(1) by simp
    finally show ?thesis by simp
  qed
next
  case (7 d)
  then show ?case by simp
next
  case (8 d x)
  from "8.prems" obtain m where n: "n = Suc m" and m: "fuel x \<le> m"
    by (cases n) auto
  have "parse_value m (serialize d x @ NEWLINE # indent d' @ CHR '']'' # rest)
          = Inr (x, NEWLINE # indent d' @ CHR '']'' # rest)"
    using "8.IH" [OF _ m] "8.prems" by simp
  then show ?case using n by (simp add: separator_close)
next
  case (9 d x y ys)
  from "9.prems" obtain m where n: "n = Suc m" and mx: "fuel x \<le> m" and my: "fuels (y # ys) \<le> m"
    by (cases n) auto
  let ?tail = "serialize_elems d (y # ys) @ NEWLINE # indent d' @ CHR '']'' # rest"
  have "parse_value m (serialize d x @ CHR '','' # NEWLINE # indent d @ ?tail)
          = Inr (x, CHR '','' # NEWLINE # indent d @ ?tail)"
    using "9.IH"(1) [OF _ mx] "9.prems" by simp
  moreover have "parse_elems m (acc @ [x]) (NEWLINE # indent d @ ?tail)
          = Inr (JArr ((acc @ [x]) @ y # ys), rest)"
    using "9.IH"(2) [OF _ _ my, of "acc @ [x]" d' rest] "9.prems"
    by (simp only: parse_elems_newline_indent) simp
  ultimately show ?case using n by (simp add: separator_comma)
next
  case (10 d)
  then show ?case by simp
next
  case (11 d k v)
  from "11.prems" obtain m where n: "n = Suc m" and m: "fuel v \<le> m"
    by (cases n) auto
  let ?tail = "NEWLINE # indent d' @ CHR ''}'' # rest"
  have key: "parse_key (QuoteJSONString k @ CHR '':'' # CHR '' '' # serialize d v @ ?tail)
          = Inr (k, CHR '' '' # serialize d v @ ?tail)"
    by (rule parse_key_quoted)
  have val: "parse_value m (CHR '' '' # serialize d v @ ?tail) = Inr (v, ?tail)"
    using "11.IH" [OF _ m] "11.prems" by (simp add: parse_value_space)
  have put: "CreateDataProperty acc' k v = acc' @ [(k, v)]"
    using "11.prems" by (simp add: CreateDataProperty_append)
  show ?case using n key val put by (simp add: separator_close)
next
  case (12 d k v q qs)
  from "12.prems" obtain m where n: "n = Suc m" and mv: "fuel v \<le> m" and mq: "fuelp (q # qs) \<le> m"
    by (cases n) auto
  let ?tail = "serialize_members d (q # qs) @ NEWLINE # indent d' @ CHR ''}'' # rest"
  have key: "parse_key (QuoteJSONString k @ CHR '':'' # CHR '' '' # serialize d v
               @ CHR '','' # NEWLINE # indent d @ ?tail)
          = Inr (k, CHR '' '' # serialize d v @ CHR '','' # NEWLINE # indent d @ ?tail)"
    by (rule parse_key_quoted)
  have val: "parse_value m (CHR '' '' # serialize d v @ CHR '','' # NEWLINE # indent d @ ?tail)
          = Inr (v, CHR '','' # NEWLINE # indent d @ ?tail)"
    using "12.IH"(1) [OF _ mv] "12.prems" by (simp add: parse_value_space)
  have "own_property_order (map fst acc' @ [k])"
    using "12.prems"(3) own_property_order_prefix [of "map fst acc' @ [k]" "map fst (q # qs)"]
    by simp
  then have put: "CreateDataProperty acc' k v = acc' @ [(k, v)]"
    by (rule CreateDataProperty_append)
  have rest: "parse_members m (acc' @ [(k, v)]) (NEWLINE # indent d @ ?tail)
          = Inr (JObj ((acc' @ [(k, v)]) @ q # qs), rest)"
    using "12.IH"(2) [OF _ _ _ mq, of "acc' @ [(k, v)]" d' rest] "12.prems"
    by (simp only: parse_members_newline_indent) simp
  show ?case using n key val put rest by (simp add: separator_comma)
qed


lemma fuel_le_length:
  "fuel v \<le> length (serialize d v)"
  "fuels xs \<le> Suc (length (serialize_elems d xs))"
  "fuelp ps \<le> Suc (length (serialize_members d ps))"
proof (induction d v and d xs and d ps rule: serialize_serialize_elems_serialize_members.induct)
  case (3 d n)
  obtain c r where "NumberToString n = c # r" using NumberToString_start by blast
  then show ?case by simp
next
  case (5 d xs)
  then show ?case by (cases "xs = []") auto
next
  case (6 d ps)
  then show ?case by (cases "ps = []") auto
qed (auto simp: QuoteJSONString_def)

text \<open>
  Serialize-then-parse is the identity on the values of the model: the text
  \<^verbatim>\<open>JSON.stringify(v, null, 2)\<close> writes parses back to \<open>v\<close>, with the same fields in the same
  order.
\<close>

lemma JSON_parse_stringify: "js_value v \<Longrightarrow> JSON_parse (JSON_stringify v) = Inr v"
proof -
  assume v: "js_value v"
  have "fuel v \<le> 2 * length (serialize 0 v) + 2"
    using fuel_le_length(1) [of v 0] by simp
  moreover have "delimited []" by (simp add: delimited_def)
  ultimately have "parse_value (2 * length (serialize 0 v) + 2) (serialize 0 v @ []) = Inr (v, [])"
    using v by (rule parse_serialize(1) [rotated])
  then show ?thesis by (simp add: JSON_parse_def JSON_stringify_def)
qed

section \<open>Properties of the session routes\<close>

subsection \<open>Evaluation of concrete inputs\<close>

lemmas parse_numeral =
  parse_value.simps(2) [of "pred_numeral k" for k, folded numeral_eq_Suc]
  parse_elems.simps(2) [of "pred_numeral k" for k, folded numeral_eq_Suc]
  parse_members.simps(2) [of "pred_numeral k" for k, folded numeral_eq_Suc]

lemmas json_eval =
  JSON_stringify_def JSON_parse_def QuoteJSONString_def quote_char_def NumberToString_def
  digits_of.simps digit_char_def unicode_escape_def hex_digit_def is_ws_def parse_number_def
  parse_int_def is_digit_def digit_val_def fraction_or_exponent_def MAX_SAFE_INTEGER_def
  expect_literal_def cons_char_def hex4_def hex_val_def simple_escape_def
  CreateDataProperty_def array_index_def parse_scalar_def closing_def separator_def
  parse_key_def parse_numeral char_of_def bit_Suc_0_iff

lemmas value_eval =
  own_property_order_def key_before_def array_index_def is_digit_def MAX_SAFE_INTEGER_def

lemmas route_eval =
  ensureSessionsDir_def readdir_def readFile_def writeFile_def session_path_def
  NextResponse_json_def error_body_def try_catch_def read_session_def GET_session_def
  template_id_def write_session_def POST_def endsWith_def Promise_all_def timestamp_def
  compare_sessions_def read_json_file_def read_all_sessions_def GET_sessions_def

subsection \<open>Reading a session back\<close>




text \<open>POST answers 200 for every value of the model whose file can be written.\<close>

lemma POST_succeeds:
  assumes "js_value session" and "template_id session = Inr sid"
    and "session_path sid = Inr name"
    and "readFile (ensureSessionsDir fs) name \<noteq> Inl EACCES"
  shows "\<exists>fs'. POST fs (Inr session) = Some (fs', \<lparr>status = 200, body = session\<rparr>)"
proof -
  obtain dir where d: "ensureSessionsDir fs = Some dir"
    by (cases fs) (simp_all add: ensureSessionsDir_def)
  with assms(4) have "map_of dir name \<noteq> Some Denied"
    by (auto simp: readFile_def split: option.splits fnode.splits)
  then have "\<exists>fs'. writeFile (Some dir) name (JSON_stringify session) = Inr fs'"
    by (auto simp: writeFile_def split: option.splits fnode.splits)
  with assms(1-3) d show ?thesis
    by (auto simp: POST_def Let_def write_session_def try_catch_def NextResponse_json_def)
qed




subsection \<open>Listing the sessions\<close>

lemma Promise_all_values: "Promise_all (map Inr vs) = Inr vs"
proof -
  have "filter (\<lambda>r. case r of Inl e \<Rightarrow> e \<noteq> Unmodelled | Inr v \<Rightarrow> False) (map Inr vs) = []"
    by (induction vs) simp_all
  moreover have "concat (map (\<lambda>r. case r of Inl e \<Rightarrow> [] | Inr v \<Rightarrow> [v]) (map Inr vs)) = vs"
    by (induction vs) simp_all
  moreover have "Inl Unmodelled \<notin> set (map Inr vs)" by auto
  ultimately show ?thesis by (simp add: Promise_all_def)
qed

lemma the_timestamp_eq: "timestamp s = Inr t \<Longrightarrow> the_timestamp s = t"
  by (simp add: the_timestamp_def)

lemma insert_by_timestamps:
  assumes "timestamp x = Inr tx" and "\<forall>y \<in> set ys. \<exists>t. timestamp y = Inr t"
  shows "insert_by compare_sessions x ys = Inr (insort_key (\<lambda>s. - the_timestamp s) x ys)"
  using assms(2)
proof (induction ys)
  case Nil
  show ?case by simp
next
  case (Cons y ys)
  then obtain ty where ty: "timestamp y = Inr ty" by auto
  have "compare_sessions x y = Inr (ty - tx)"
    by (simp add: compare_sessions_def assms(1) ty)
  with Cons show ?case
    by (simp add: the_timestamp_eq [OF assms(1)] the_timestamp_eq [OF ty])
qed

lemma Array_sort_timestamps:
  "\<forall>s \<in> set xs. \<exists>t. timestamp s = Inr t \<Longrightarrow>
   Array_sort compare_sessions xs = Inr (sort_key (\<lambda>s. - the_timestamp s) xs)"
proof (induction xs)
  case Nil
  show ?case by simp
next
  case (Cons x xs)
  then obtain tx where tx: "timestamp x = Inr tx" by auto
  have rest: "\<forall>y \<in> set (sort_key (\<lambda>s. - the_timestamp s) xs). \<exists>t. timestamp y = Inr t"
    using Cons.prems by simp
  show ?case
    using Cons insert_by_timestamps [OF tx rest] by simp
qed

text \<open>
  C8: GET /api/sessions returns exactly the sessions parsed from the \<^verbatim>\<open>.json\<close> files of the
  sessions directory, newest first. When every \<^verbatim>\<open>.json\<close> entry of the directory reads and
  parses, to \<open>sessions\<close> in directory order, and every session has a numeric timestamp, the
  response is 200 with an array that holds the same sessions, each as often as it was read
  (equal multisets), in descending order of timestamp. Entries whose name does not end in
  \<^verbatim>\<open>.json\<close> are not read.
\<close>

theorem GET_sessions_newest_first:
  assumes "ensureSessionsDir fs = Some dir"
    and "map (read_json_file (Some dir)) (filter (\<lambda>f. endsWith f ''.json'') (map fst dir))
           = map Inr sessions"
    and "\<forall>s \<in> set sessions. \<exists>t. timestamp s = Inr t"
  shows "\<exists>ordered.
           GET_sessions fs = Some (Some dir, \<lparr>status = 200, body = JArr ordered\<rparr>)
           \<and> mset ordered = mset sessions
           \<and> sorted_wrt (\<lambda>a b. the_timestamp b \<le> the_timestamp a) ordered"
proof -
  let ?ordered = "sort_key (\<lambda>s. - the_timestamp s) sessions"
  have "read_all_sessions (Some dir) = Inr sessions"
    using assms(2) by (simp add: read_all_sessions_def readdir_def Promise_all_values)
  moreover have "Array_sort compare_sessions sessions = Inr ?ordered"
    using assms(3) by (rule Array_sort_timestamps)
  ultimately have "GET_sessions fs = Some (Some dir, \<lparr>status = 200, body = JArr ?ordered\<rparr>)"
    using assms(1) by (simp add: GET_sessions_def Let_def try_catch_def NextResponse_json_def)
  moreover have "mset ?ordered = mset sessions" by simp
  moreover have "sorted (map (\<lambda>s. - the_timestamp s) ?ordered)"
    by (rule sorted_sort_key)
  then have "sorted_wrt (\<lambda>a b. the_timestamp b \<le> the_timestamp a) ?ordered"
    by (simp add: sorted_map)
  ultimately show ?thesis by blast
qed

theorem GET_sessions_newest_first_witness:
  "ensureSessionsDir (Some example_dir) = Some example_dir
   \<and> map (read_json_file (Some example_dir))
        (filter (\<lambda>f. endsWith f ''.json'') (map fst example_dir))
      = map Inr [older_session, newer_session]
   \<and> timestamp older_session = Inr 1000 \<and> timestamp newer_session = Inr 2000
   \<and> GET_sessions (Some example_dir)
      = Some (Some example_dir, \<lparr>status = 200, body = JArr [newer_session, older_session]\<rparr>)"
proof -
  have e: "ensureSessionsDir (Some example_dir) = Some example_dir"
    by (simp add: ensureSessionsDir_def)
  have v: "js_value older_session" "js_value newer_session"
    by (simp_all add: older_session_def newer_session_def value_eval)
  have m: "map (read_json_file (Some example_dir))
        (filter (\<lambda>f. endsWith f ''.json'') (map fst example_dir))
      = map Inr [older_session, newer_session]"
    by (simp add: example_dir_def endsWith_def read_json_file_def readFile_def
        JSON_parse_stringify v)
  have t: "timestamp older_session = Inr 1000" "timestamp newer_session = Inr 2000"
    by (simp_all add: older_session_def newer_session_def timestamp_def)
  then have a: "\<forall>s \<in> set [older_session, newer_session]. \<exists>t. timestamp s = Inr t"
    by simp
  obtain ordered where g: "GET_sessions (Some example_dir)
        = Some (Some example_dir, \<lparr>status = 200, body = JArr ordered\<rparr>)"
    and ms: "mset ordered = mset [older_session, newer_session]"
    and so: "sorted_wrt (\<lambda>a b. the_timestamp b \<le> the_timestamp a) ordered"
    using GET_sessions_newest_first [OF e m a] by blast
  have ts: "the_timestamp older_session = 1000" "the_timestamp newer_session = 2000"
    using t by (simp_all add: the_timestamp_eq)
  from ms have "length ordered = 2" by (metis length_Cons list.size(3) size_mset One_nat_def Suc_1)
  then obtain x y where xy: "ordered = [x, y]"
    by (metis (no_types) length_0_conv length_Suc_conv numeral_2_eq_2)
  with ms have "(x = older_session \<and> y = newer_session) \<or> (x = newer_session \<and> y = older_session)"
    by (auto simp: add_eq_conv_ex)
  with so xy ts have "ordered = [newer_session, older_session]" by auto
  with g e m t show ?thesis by simp
qed

subsection \<open>A session that cannot be read\<close>


text \<open>Unless the try block left the model, the handler's result is a response, with
  status 200 or 404.\<close>

lemma GET_session_responds:
  assumes "read_session fs sid \<noteq> Inl Unmodelled"
  shows "\<exists>r. GET_session fs sid = Some r \<and> (status r = 200 \<or> status r = 404)"
  using assms
  by (cases "read_session fs sid")
     (auto simp: GET_session_def try_catch_def NextResponse_json_def)



section \<open>Properties of the notification store\<close>

subsection \<open>markRead\<close>

lemma find_nid_None: "(find (\<lambda>n. nid n = i) xs = None) = (i \<notin> nid ` set xs)"
  by (induction xs) auto

lemma find_nid_Some: "find (\<lambda>n. nid n = i) xs = Some n \<Longrightarrow> n \<in> set xs \<and> nid n = i"
  by (induction xs) (auto split: if_splits)

lemma map_nid_mark:
  "map nid (map (\<lambda>m. if nid m = i then m\<lparr>read := True\<rparr> else m) xs) = map nid xs"
  by (induction xs) simp_all

lemma read_after_mark:
  assumes "m \<in> set (map (\<lambda>m. if nid m = i then m\<lparr>read := True\<rparr> else m) xs)" and "nid m = i"
  shows "read m"
proof -
  from assms(1) obtain x where x: "m = (if nid x = i then x\<lparr>read := True\<rparr> else x)"
    by (auto simp only: set_map image_iff)
  show ?thesis
  proof (cases "nid x = i")
    case True
    with x show ?thesis by simp
  next
    case False
    with x assms(2) show ?thesis by simp
  qed
qed

lemma marked_member:
  assumes "n \<in> set xs" and "nid n = i"
  shows "n\<lparr>read := True\<rparr> \<in> set (map (\<lambda>m. if nid m = i then m\<lparr>read := True\<rparr> else m) xs)"
proof -
  let ?f = "\<lambda>m. if nid m = i then m\<lparr>read := True\<rparr> else m"
  have "n\<lparr>read := True\<rparr> = ?f n" using assms(2) by simp
  also have "?f n \<in> ?f ` set xs" using assms(1) by (rule imageI)
  finally show ?thesis by (simp only: set_map)
qed

text \<open>
  C4: when a record with the id exists, \<open>markRead\<close> returns that notification with its read
  flag set, the stored record with that id is read afterwards, and no id is added or lost;
  when no record has the id, \<open>markRead\<close> fails with \<open>NotificationNotFound\<close>. It never
  succeeds on an id that does not exist.
\<close>

theorem markRead_sets_read_or_fails:
  "(i \<in> nid ` set (items st) \<longrightarrow>
      (\<exists>n st'. markRead i st = Inr (n, st') \<and> nid n = i \<and> read n
         \<and> n \<in> set (items st')
         \<and> (\<forall>m \<in> set (items st'). nid m = i \<longrightarrow> read m)
         \<and> map nid (items st') = map nid (items st)))
   \<and> (i \<notin> nid ` set (items st) \<longrightarrow> markRead i st = Inl NotificationNotFound)"
proof (intro conjI impI)
  assume "i \<notin> nid ` set (items st)"
  then have "find (\<lambda>n. nid n = i) (items st) = None"
    by (simp add: find_nid_None)
  then show "markRead i st = Inl NotificationNotFound"
    by (simp add: markRead_def)
next
  assume "i \<in> nid ` set (items st)"
  then obtain n where f: "find (\<lambda>n. nid n = i) (items st) = Some n"
    using find_nid_None [of i "items st"] by (cases "find (\<lambda>n. nid n = i) (items st)") auto
  then have n: "n \<in> set (items st)" "nid n = i" using find_nid_Some by blast+
  define marked where "marked = map (\<lambda>m. if nid m = i then m\<lparr>read := True\<rparr> else m) (items st)"
  have r: "markRead i st = Inr (n\<lparr>read := True\<rparr>, st\<lparr>items := marked\<rparr>)"
    using f by (simp add: markRead_def marked_def)
  have m1: "n\<lparr>read := True\<rparr> \<in> set marked"
    unfolding marked_def using n by (rule marked_member)
  have m2: "\<forall>m \<in> set marked. nid m = i \<longrightarrow> read m"
    unfolding marked_def using read_after_mark by blast
  have m3: "map nid marked = map nid (items st)"
    unfolding marked_def by (rule map_nid_mark)
  show "\<exists>n st'. markRead i st = Inr (n, st') \<and> nid n = i \<and> read n
         \<and> n \<in> set (items st')
         \<and> (\<forall>m \<in> set (items st'). nid m = i \<longrightarrow> read m)
         \<and> map nid (items st') = map nid (items st)"
    using r n(2) m1 m2 m3
    by (intro exI [of _ "n\<lparr>read := True\<rparr>"] exI [of _ "st\<lparr>items := marked\<rparr>"]) simp
qed

theorem markRead_sets_read_or_fails_witness:
  "1 \<in> nid ` set (items example_store)
   \<and> (\<exists>n st'. markRead 1 example_store = Inr (n, st') \<and> nid n = 1 \<and> read n
         \<and> n \<in> set (items st'))
   \<and> 2 \<notin> nid ` set (items example_store)
   \<and> markRead 2 example_store = Inl NotificationNotFound"
proof -
  have a: "1 \<in> nid ` set (items example_store)"
    by (simp add: example_store_def sendNotification_def new_store_def Let_def)
  have b: "2 \<notin> nid ` set (items example_store)"
    by (simp add: example_store_def sendNotification_def new_store_def Let_def)
  from markRead_sets_read_or_fails [of 1 example_store] a
  have "\<exists>n st'. markRead 1 example_store = Inr (n, st') \<and> nid n = 1 \<and> read n
         \<and> n \<in> set (items st')"
    by blast
  moreover from markRead_sets_read_or_fails [of 2 example_store] b
  have "markRead 2 example_store = Inl NotificationNotFound" by blast
  ultimately show ?thesis using a b by blast
qed



subsection \<open>Reminders\<close>

text \<open>
  C5: the record \<open>scheduleReminder\<close> creates is stored with \<open>deliverAt = now + delay\<close>. At
  every clock reading before \<open>deliverAt\<close> it is not among the results of
  \<open>getNotifications\<close>; at every clock reading from \<open>deliverAt\<close> on it is.
\<close>

theorem scheduleReminder_visibility:
  assumes "scheduleReminder now t m delay p st = (n, st')"
  shows "deliverAt n = Some (now + delay)
         \<and> n \<in> set (items st')
         \<and> (\<forall>clock. clock < now + delay \<longrightarrow> n \<notin> set (getNotifications clock False st'))
         \<and> (\<forall>clock. now + delay \<le> clock \<longrightarrow> n \<in> set (getNotifications clock False st'))"
proof -
  from assms have d: "deliverAt n = Some (now + delay)"
    and i: "items st' = items st @ [n]"
    by (auto simp: scheduleReminder_def sendNotification_def Let_def)
  show ?thesis
    using d i by (auto simp: getNotifications_def visible_def)
qed

theorem scheduleReminder_visibility_witness:
  "(\<exists>n st'. scheduleReminder 100 ''T'' ''M'' 3600 None new_store = (n, st')
      \<and> deliverAt n = Some 3700
      \<and> n \<notin> set (getNotifications 100 False st')
      \<and> n \<notin> set (getNotifications 3699 False st')
      \<and> n \<in> set (getNotifications 3700 False st')
      \<and> n \<in> set (getNotifications 5000 False st'))"
proof -
  obtain n st' where s: "scheduleReminder 100 ''T'' ''M'' 3600 None new_store = (n, st')"
    by (cases "scheduleReminder 100 ''T'' ''M'' 3600 None new_store")
  from scheduleReminder_visibility [OF s] have
    "deliverAt n = Some 3700"
    "\<forall>clock. clock < 3700 \<longrightarrow> n \<notin> set (getNotifications clock False st')"
    "\<forall>clock. 3700 \<le> clock \<longrightarrow> n \<in> set (getNotifications clock False st')"
    by simp_all
  then have "deliverAt n = Some 3700
      \<and> n \<notin> set (getNotifications 100 False st')
      \<and> n \<notin> set (getNotifications 3699 False st')
      \<and> n \<in> set (getNotifications 3700 False st')
      \<and> n \<in> set (getNotifications 5000 False st')"
    by simp
  with s show ?thesis by blast
qed

subsection \<open>Ids\<close>

text \<open>The invariant of a store lifetime: the ids assigned so far increase strictly and lie
  below the next id; the items are among them, in increasing order of id.\<close>

lemma sorted_wrt_less_snoc:
  "sorted_wrt (<) (xs @ [x :: nat]) = (sorted_wrt (<) xs \<and> (\<forall>y \<in> set xs. y < x))"
  by (auto simp: sorted_wrt_append)

lemma perform_invariant:
  assumes "perform c (ids, st) = (ids', st')"
    and "sorted_wrt (<) ids" and "\<forall>i \<in> set ids. i < next_id st"
    and "sorted_wrt (<) (map nid (items st))" and "nid ` set (items st) \<subseteq> set ids"
  shows "sorted_wrt (<) ids' \<and> (\<forall>i \<in> set ids'. i < next_id st')
         \<and> sorted_wrt (<) (map nid (items st')) \<and> nid ` set (items st') \<subseteq> set ids'"
proof (cases c)
  case (Pair now call)
  have mem: "\<forall>x \<in> set (items st). nid x \<in> set ids"
    using assms(5) by blast
  then have below: "\<forall>x \<in> set (items st). nid x < next_id st"
    using assms(3) by blast
  have send: "sorted_wrt (<) (ids @ [next_id st])
      \<and> (\<forall>i \<in> set (ids @ [next_id st]). i < Suc (next_id st))
      \<and> sorted_wrt (<) (map nid (items st @ [n]))
      \<and> nid ` set (items st @ [n]) \<subseteq> set (ids @ [next_id st])"
    if "nid n = next_id st" for n
    using that assms(2,3,4) mem below
    by (auto simp: sorted_wrt_append less_Suc_eq)
  show ?thesis
  proof (cases call)
    case (SendNotification t m p due)
    define n where "n = \<lparr>nid = next_id st, title = t, message = m, priority = p,
        createdAt = now, read = False, deliverAt = due\<rparr>"
    have eq: "ids' = ids @ [next_id st]" "items st' = items st @ [n]"
      "next_id st' = Suc (next_id st)"
      using Pair SendNotification assms(1)
      by (auto simp: sendNotification_def Let_def n_def)
    have "nid n = next_id st" by (simp add: n_def)
    from send [OF this] show ?thesis unfolding eq .
  next
    case (ScheduleReminder t m delay p)
    define n where "n = \<lparr>nid = next_id st, title = t, message = m,
        priority = (case p of None \<Rightarrow> Normal | Some q \<Rightarrow> q),
        createdAt = now, read = False, deliverAt = Some (now + delay)\<rparr>"
    have eq: "ids' = ids @ [next_id st]" "items st' = items st @ [n]"
      "next_id st' = Suc (next_id st)"
      using Pair ScheduleReminder assms(1)
      by (auto simp: scheduleReminder_def sendNotification_def Let_def n_def)
    have "nid n = next_id st" by (simp add: n_def)
    from send [OF this] show ?thesis unfolding eq .
  next
    case (MarkRead i)
    show ?thesis
    proof (cases "find (\<lambda>n. nid n = i) (items st)")
      case None
      with Pair MarkRead assms show ?thesis by (simp add: markRead_def)
    next
      case (Some n)
      define marked where
        "marked = map (\<lambda>m. if nid m = i then m\<lparr>read := True\<rparr> else m) (items st)"
      have eq: "ids' = ids" "items st' = marked" "next_id st' = next_id st"
        using Some Pair MarkRead assms(1) by (auto simp: markRead_def marked_def)
      have m: "map nid marked = map nid (items st)"
        unfolding marked_def by (rule map_nid_mark)
      then have "set (map nid marked) = set (map nid (items st))" by simp
      then have "nid ` set marked = nid ` set (items st)" by (simp only: set_map)
      with m assms(2-5) show ?thesis unfolding eq by simp
    qed
  next
    case (ClearNotifications onlyRead)
    define kept where
      "kept = (if onlyRead then filter (\<lambda>n. \<not> read n) (items st) else [])"
    have eq: "ids' = ids" "items st' = kept" "next_id st' = next_id st"
      using Pair ClearNotifications assms(1)
      by (auto simp: clearNotifications_def Let_def kept_def)
    have "sorted_wrt (<) (map nid kept)"
      using assms(4) by (simp add: kept_def sorted_wrt_map sorted_wrt_filter)
    moreover have "nid ` set kept \<subseteq> set ids"
      using mem by (auto simp: kept_def)
    ultimately show ?thesis using assms(2,3) unfolding eq by simp
  qed
qed

lemma run_invariant:
  "sorted_wrt (<) (fst (run calls)) \<and> (\<forall>i \<in> set (fst (run calls)). i < next_id (snd (run calls)))
   \<and> sorted_wrt (<) (map nid (items (snd (run calls))))
   \<and> nid ` set (items (snd (run calls))) \<subseteq> set (fst (run calls))"
proof (induction calls rule: rev_induct)
  case Nil
  show ?case by (simp add: run_def new_store_def)
next
  case (snoc c calls)
  obtain ids st where r: "run calls = (ids, st)" by (cases "run calls")
  obtain ids' st' where p: "perform c (ids, st) = (ids', st')" by (cases "perform c (ids, st)")
  have "run (calls @ [c]) = (ids', st')"
    using r p by (simp add: run_def)
  with perform_invariant [OF p] snoc r show ?case by simp
qed

lemma perform_extends: "\<exists>new. fst (perform c (ids, st)) = ids @ new"
proof (cases c)
  case (Pair now call)
  then show ?thesis
    by (cases call) (auto simp: split_def split: sum.splits)
qed

lemma foldl_perform_extends:
  "\<exists>later. fst (foldl (\<lambda>acc c. perform c acc) (ids, st) further) = ids @ later"
proof (induction further arbitrary: ids st)
  case Nil
  show ?case by simp
next
  case (Cons c further)
  obtain ids' st' where p: "perform c (ids, st) = (ids', st')" by (cases "perform c (ids, st)")
  obtain new where n: "ids' = ids @ new" using perform_extends [of c ids st] p by auto
  obtain later where "fst (foldl (\<lambda>acc c. perform c acc) (ids', st') further) = ids' @ later"
    using Cons.IH by blast
  with p n show ?case by simp
qed

text \<open>
  C6: in a store lifetime (any sequence of calls from the new store) the ids assigned
  increase strictly, so they are pairwise distinct; the items are in increasing order of
  id, which is their insertion order; and whatever calls follow, every id they assign is
  greater than every id assigned before, whether its record is still stored or was removed
  by \<open>clearNotifications\<close>: an id is never assigned again.
\<close>

theorem ids_increase_and_are_never_reused:
  "sorted_wrt (<) (fst (run calls))
   \<and> distinct (fst (run calls))
   \<and> sorted_wrt (<) (map nid (items (snd (run calls))))
   \<and> (\<exists>later. fst (run (calls @ further)) = fst (run calls) @ later
         \<and> (\<forall>i \<in> set (fst (run calls)). \<forall>j \<in> set later. i < j))"
proof -
  have s: "sorted_wrt (<) (fst (run calls))"
    and t: "sorted_wrt (<) (map nid (items (snd (run calls))))"
    using run_invariant [of calls] by simp_all
  from s have d: "distinct (fst (run calls))"
    by (simp add: strict_sorted_iff)
  obtain ids st where r: "run calls = (ids, st)" by (cases "run calls")
  have "run (calls @ further) = foldl (\<lambda>acc c. perform c acc) (ids, st) further"
    using r by (simp add: run_def)
  then obtain later where l: "fst (run (calls @ further)) = ids @ later"
    using foldl_perform_extends [of ids st further] by auto
  have "sorted_wrt (<) (fst (run (calls @ further)))"
    using run_invariant [of "calls @ further"] by simp
  with l have "\<forall>i \<in> set ids. \<forall>j \<in> set later. i < j"
    by (simp add: sorted_wrt_append)
  with l r s d t show ?thesis by auto
qed

theorem ids_increase_and_are_never_reused_witness:
  "fst (run [(1, SendNotification ''a'' ''b'' Low None), (2, MarkRead 1),
             (3, ClearNotifications False)]) = [1]
   \<and> items (snd (run [(1, SendNotification ''a'' ''b'' Low None), (2, MarkRead 1),
             (3, ClearNotifications False)])) = []
   \<and> (\<exists>later. fst (run ([(1, SendNotification ''a'' ''b'' Low None), (2, MarkRead 1),
             (3, ClearNotifications False)] @ [(4, ScheduleReminder ''c'' ''d'' 60 None)]))
          = [1] @ later \<and> (\<forall>j \<in> set later. 1 < j))"
proof -
  let ?calls = "[(1, SendNotification ''a'' ''b'' Low None), (2, MarkRead 1),
             (3, ClearNotifications False)]"
  have a: "fst (run ?calls) = [1]"
    by (simp add: run_def new_store_def sendNotification_def markRead_def
        clearNotifications_def Let_def)
  have b: "items (snd (run ?calls)) = []"
    by (simp add: run_def new_store_def sendNotification_def markRead_def
        clearNotifications_def Let_def)
  from ids_increase_and_are_never_reused [of ?calls "[(4, ScheduleReminder ''c'' ''d'' 60 None)]"]
  obtain later where
    "fst (run (?calls @ [(4, ScheduleReminder ''c'' ''d'' 60 None)])) = fst (run ?calls) @ later"
    "\<forall>i \<in> set (fst (run ?calls)). \<forall>j \<in> set later. i < j"
    by blast
  with a have "\<exists>later. fst (run (?calls @ [(4, ScheduleReminder ''c'' ''d'' 60 None)]))
          = [1] @ later \<and> (\<forall>j \<in> set later. 1 < j)"
    by auto
  with a b show ?thesis by blast
qed

section \<open>Examples\<close>

text \<open>
  The model on concrete inputs: the text \<^verbatim>\<open>JSON.stringify(session, null, 2)\<close> writes for a
  new session of the front end; a text read back, with the array index key moved first as
  JavaScript enumerates it; texts \<^verbatim>\<open>JSON.parse\<close> rejects, and one the model leaves open;
  the two GET handlers on a directory with a truncated file.
\<close>

lemma stringify_example:
  \<open>JSON_stringify example_session =
     ''{\<newline>  "id": "1700000000000",\<newline>  "title": "New Session",\<newline>  "timestamp": 1700000000000,\<newline>  "messages": []\<newline>}''\<close>
  by (simp add: example_session_def json_eval)

lemma parse_example:
  \<open>JSON_parse ''{"id":"s1", "timestamp": 12, "messages": [{"role":"user","content":"hi"}], "7": null}''
     = Inr (JObj [(''7'', JNull), (''id'', JStr ''s1''), (''timestamp'', JNum 12),
                  (''messages'', JArr [JObj [(''role'', JStr ''user''), (''content'', JStr ''hi'')]])])\<close>
  by (simp add: json_eval)

lemma parse_rejects:
  \<open>JSON_parse ''{"id": "s1",}'' = Inl SyntaxError\<close>
  \<open>JSON_parse ''{"id": 1.5}'' = Inl Unmodelled\<close>
  \<open>JSON_parse ''[1, 2'' = Inl SyntaxError\<close>
  by (simp_all add: json_eval)

lemma GET_session_corrupt_file:
  \<open>GET_session (Some [(''s1.json'', File ''{"id": "s1",'')]) ''s1''
     = Some \<lparr>status = 404, body = JObj [(''error'', JStr ''Session not found'')]\<rparr>\<close>
  by (simp add: route_eval json_eval)

lemma GET_sessions_corrupt_file:
  \<open>GET_sessions (Some [(''s1.json'', File ''{"id": "s1",'')])
     = Some (Some [(''s1.json'', File ''{"id": "s1",'')],
             \<lparr>status = 500, body = JObj [(''error'', JStr ''Failed to read sessions'')]\<rparr>)\<close>
  by (simp add: route_eval json_eval)

end
